theory Spec2Isabelle
  imports Complex_Main "HOL-Library.Word"
begin

section \<open>JavaScript numbers\<close>

text \<open>
  The analyser and the sequencer compute with JavaScript numbers. They are modelled as
  exact reals together with the one non-numeric value the code can produce, \<open>NaN\<close>
  (reading a typed array past its end gives \<open>undefined\<close>, and \<open>sum += undefined\<close>
  is \<open>NaN\<close>). The rounding of IEEE doubles is modelled where the returned value
  depends on it, in the interval that \<open>detectBpm\<close> records and in its estimate, and not
  elsewhere; no division of the modelled code has a zero divisor, so the infinities are
  left out.
\<close>

datatype jsnum = Num real | NaN

fun jadd :: "jsnum \<Rightarrow> jsnum \<Rightarrow> jsnum" where
  "jadd (Num a) (Num b) = Num (a + b)"
| "jadd _ _ = NaN"

fun jsub :: "jsnum \<Rightarrow> jsnum \<Rightarrow> jsnum" where
  "jsub (Num a) (Num b) = Num (a - b)"
| "jsub _ _ = NaN"

fun jmul :: "jsnum \<Rightarrow> jsnum \<Rightarrow> jsnum" where
  "jmul (Num a) (Num b) = Num (a * b)"
| "jmul _ _ = NaN"

text \<open>Division by a positive count or constant (the only divisors in the code).\<close>

fun jdiv :: "jsnum \<Rightarrow> real \<Rightarrow> jsnum" where
  "jdiv (Num a) d = Num (a / d)"
| "jdiv NaN d = NaN"

text \<open>\<open>Math.max\<close> and \<open>Math.min\<close> return \<open>NaN\<close> as soon as one argument is \<open>NaN\<close>.\<close>

fun jmax :: "jsnum \<Rightarrow> jsnum \<Rightarrow> jsnum" where
  "jmax (Num a) (Num b) = Num (max a b)"
| "jmax _ _ = NaN"

fun jmin :: "jsnum \<Rightarrow> jsnum \<Rightarrow> jsnum" where
  "jmin (Num a) (Num b) = Num (min a b)"
| "jmin _ _ = NaN"

fun isNum :: "jsnum \<Rightarrow> bool" where
  "isNum (Num a) = True"
| "isNum NaN = False"

fun inRange :: "jsnum \<Rightarrow> bool" where
  "inRange (Num a) = (0 \<le> a \<and> a \<le> 255)"
| "inRange NaN = False"

section \<open>Spectral feature extractor (src/hooks/useAudioAnalyzer.ts)\<close>

text \<open>A frame is a \<open>Uint8Array\<close>: one byte per frequency bin.\<close>

type_synonym frame = "8 word list"

text \<open>\<open>data[i]\<close> used as a number: the byte inside the array, \<open>NaN\<close> past its end.\<close>

definition readBin :: "frame \<Rightarrow> nat \<Rightarrow> jsnum" where
  "readBin data i = (if i < length data then Num (real (unat (data ! i))) else NaN)"

text \<open>The refs of the hook: \<open>maxVolumeRef\<close>, \<open>gainRef\<close> and the three fields of \<open>historyRef\<close>.\<close>

record analyzer =
  maxVolumeRef :: real
  gainRef :: real
  history_bass :: jsnum
  history_high :: jsnum
  history_mid :: jsnum

definition initAnalyzer :: analyzer where
  "initAnalyzer = \<lparr>maxVolumeRef = 100, gainRef = 1,
     history_bass = Num 0, history_high = Num 0, history_mid = Num 0\<rparr>"

text \<open>The scan of the full spectrum in \<open>updateAutoGain\<close>.\<close>

definition frameMax :: "frame \<Rightarrow> nat" where
  "frameMax data = fold (\<lambda>x m. if unat x > m then unat x else m) data 0"

definition safeMax :: "real \<Rightarrow> real" where
  "safeMax mv = max mv 50"

definition targetGain :: "real \<Rightarrow> real" where
  "targetGain mv = 255 / safeMax mv"

definition updateAutoGain :: "frame \<Rightarrow> analyzer \<Rightarrow> analyzer" where
  "updateAutoGain data st =
     (let fm = real (frameMax data);
          mv = (if fm > maxVolumeRef st then fm else maxVolumeRef st * 0.995)
      in st\<lparr>maxVolumeRef := mv,
            gainRef := gainRef st + (targetGain mv - gainRef st) * 0.1\<rparr>)"

text \<open>A \<open>for\<close> loop that adds up \<open>data[i]\<close> and counts its iterations.\<close>

definition sumBins :: "frame \<Rightarrow> nat list \<Rightarrow> jsnum \<times> nat" where
  "sumBins data is = fold (\<lambda>i (s, c). (jadd s (readBin data i), c + 1)) is (Num 0, 0)"

text \<open>
  Each extractor gets the result of \<open>getFrequencyData\<close>, or \<open>None\<close> when there is no
  analyser node, and returns its value with the updated refs.
\<close>

text \<open>\<open>const bassBins = 4\<close>, and the bins the loop of \<open>getMidEnergy\<close> visits.\<close>

definition bassBins :: nat where
  "bassBins = 4"

definition midBins :: "nat list" where
  "midBins = [5..<30]"

definition getBassEnergy :: "frame option \<Rightarrow> analyzer \<Rightarrow> jsnum \<times> analyzer" where
  "getBassEnergy src st =
     (case src of
        None \<Rightarrow> (Num 0, st)
      | Some data \<Rightarrow>
          (let st1 = updateAutoGain data st;
               sum = fst (sumBins data [0..<bassBins]);
               currentAvg = jmul (jdiv sum (real bassBins)) (Num (gainRef st1));
               prevBass = history_bass st1;
               kickTransient = jmax (Num 0) (jsub currentAvg prevBass);
               kickTransient2 = jmin (jmul kickTransient (Num 2.5)) (Num 255)
           in (jadd (jmul kickTransient2 (Num 0.8)) (jmul currentAvg (Num 0.2)),
               st1\<lparr>history_bass := currentAvg\<rparr>)))"

definition getMidEnergy :: "frame option \<Rightarrow> analyzer \<Rightarrow> jsnum \<times> analyzer" where
  "getMidEnergy src st =
     (case src of
        None \<Rightarrow> (Num 0, st)
      | Some data \<Rightarrow>
          (let (sum, count) = sumBins data midBins;
               currentAvg = (if count > 0 then jmul (jdiv sum (real count)) (Num (gainRef st))
                             else Num 0);
               m = jadd (jmul (history_mid st) (Num 0.8)) (jmul currentAvg (Num 0.2))
           in (jmin m (Num 255), st\<lparr>history_mid := m\<rparr>)))"

text \<open>The bins the loop of \<open>getHighEnergy\<close> visits: \<open>i = 50; i < Math.min(data.length, 150)\<close>.\<close>

definition highBins :: "frame \<Rightarrow> nat list" where
  "highBins data = [50..<min (length data) 150]"

definition getHighEnergy :: "frame option \<Rightarrow> analyzer \<Rightarrow> jsnum \<times> analyzer" where
  "getHighEnergy src st =
     (case src of
        None \<Rightarrow> (Num 0, st)
      | Some data \<Rightarrow>
          (let (sum, count) = sumBins data (highBins data);
               currentAvg = (if count > 0
                             then jmul (jmul (jdiv sum (real count)) (Num (gainRef st))) (Num 1.8)
                             else Num 0);
               prevHigh = history_high st;
               highTransient = jmax (Num 0) (jsub currentAvg prevHigh)
           in (jmin (jmul highTransient (Num 4.0)) (Num 255),
               st\<lparr>history_high := currentAvg\<rparr>)))"

text \<open>A poll of one band, and a sequence of polls from some state.\<close>

datatype band = Bass | Mid | High

fun poll :: "band \<Rightarrow> frame option \<Rightarrow> analyzer \<Rightarrow> jsnum \<times> analyzer" where
  "poll Bass src st = getBassEnergy src st"
| "poll Mid src st = getMidEnergy src st"
| "poll High src st = getHighEnergy src st"

definition runPolls :: "(band \<times> frame option) list \<Rightarrow> analyzer \<Rightarrow> analyzer" where
  "runPolls ps st = fold (\<lambda>(b, src) s. snd (poll b src s)) ps st"

text \<open>The gain-update step alone, run over a sequence of frames.\<close>

definition runGain :: "frame list \<Rightarrow> analyzer \<Rightarrow> analyzer" where
  "runGain fs st = fold updateAutoGain fs st"

definition gainInv :: "analyzer \<Rightarrow> bool" where
  "gainInv st = (0 < maxVolumeRef st \<and> maxVolumeRef st \<le> 255 \<and>
                 1 \<le> gainRef st \<and> gainRef st \<le> 5.1)"

text \<open>A silent frame of 256 bins, the size the analyser node delivers (\<open>fftSize = 512\<close>).\<close>

definition silence :: frame where
  "silence = replicate 256 0"

text \<open>A kick after silence: the four bass bins at full scale, the other bins empty.\<close>

definition kick :: frame where
  "kick = replicate 4 255 @ replicate 252 0"

text \<open>
  What a run of polls on frames of at least 30 bins keeps: the gain state in its
  bounds, the bass and high histories numbers, the mid history a non-negative number.
\<close>

definition histInv :: "analyzer \<Rightarrow> bool" where
  "histInv st = (gainInv st \<and> isNum (history_bass st) \<and> isNum (history_high st) \<and>
                 inRange (jmin (history_mid st) (Num 255)))"

definition fullFrame :: "frame option \<Rightarrow> bool" where
  "fullFrame src = (case src of None \<Rightarrow> True | Some data \<Rightarrow> 30 \<le> length data)"

section \<open>Tempo estimator (\<open>detectBpm\<close> in src/hooks/useAudioAnalyzer.ts)\<close>

text \<open>\<open>beatRef\<close>. The times are those of \<open>performance.now()\<close>, in milliseconds.\<close>

record beatState =
  lastBeatTime :: real
  intervals :: "real list"
  threshold :: real
  minThreshold :: real

definition initBeat :: beatState where
  "initBeat = \<lparr>lastBeatTime = 0, intervals = [], threshold = 0, minThreshold = 80\<rparr>"

text \<open>\<open>Math.round\<close>: the nearest integer, a tie going up.\<close>

definition mathRound :: "real \<Rightarrow> int" where
  "mathRound x = \<lfloor>x + 1 / 2\<rfloor>"

text \<open>The first two statements: the threshold decays and is floored at \<open>minThreshold\<close>.\<close>

definition decayThreshold :: "beatState \<Rightarrow> beatState" where
  "decayThreshold st =
     (let t = threshold st * 0.95
      in st\<lparr>threshold := (if t < minThreshold st then minThreshold st else t)\<rparr>)"



text \<open>\<open>push\<close>, then \<open>shift\<close> once the queue holds more than 8 intervals.\<close>

definition pushInterval :: "real \<Rightarrow> real list \<Rightarrow> real list" where
  "pushInterval interval ivs =
     (let ivs1 = ivs @ [interval] in if length ivs1 > 8 then tl ivs1 else ivs1)"

text \<open>
  The recorded interval and the estimate are computed in double precision: a
  difference, a sum, a quotient by the length and a quotient of 60000, each rounded to
  the nearest double, a tie going to the even significand. \<open>fl\<close> is that rounding for a
  significand of 53 bits; the exponent range is not bounded, the values here lying
  between 60 and 8000.
\<close>

definition roundEven :: "real \<Rightarrow> int" where
  "roundEven y =
     (let f = \<lfloor>y\<rfloor>;
          r = y - of_int f
      in if r < 1 / 2 then f
         else if 1 / 2 < r then f + 1
         else if even f then f else f + 1)"

definition ulp :: "real \<Rightarrow> real" where
  "ulp x = 2 powr (of_int \<lfloor>log 2 \<bar>x\<bar>\<rfloor> - 52)"

definition fl :: "real \<Rightarrow> real" where
  "fl x = (if x = 0 then 0 else of_int (roundEven (x / ulp x)) * ulp x)"

text \<open>\<open>const avg = state.intervals.reduce((a,b)=>a+b,0) / state.intervals.length\<close>.\<close>

definition avg :: "real list \<Rightarrow> real" where
  "avg ivs = fl (fold (\<lambda>b a. fl (a + b)) ivs 0 / real (length ivs))"

text \<open>
  \<open>detectBpm(bassEnergy)\<close>, with the clock reading \<open>now\<close> as a parameter. It returns
  the estimate (\<open>None\<close> for \<open>null\<close>) and the updated \<open>beatRef\<close>.
\<close>

definition detectBpm :: "real \<Rightarrow> real \<Rightarrow> beatState \<Rightarrow> int option \<times> beatState" where
  "detectBpm bassEnergy now st0 =
     (let st = decayThreshold st0;
          st2 =
            (if bassEnergy > threshold st \<and> bassEnergy > minThreshold st then
               (let st1 =
                  (if now - lastBeatTime st > 250 then
                     (let interval = fl (now - lastBeatTime st);
                          sta = st\<lparr>lastBeatTime := now\<rparr>
                      in if interval > 300 \<and> interval < 1000
                         then sta\<lparr>intervals := pushInterval interval (intervals sta)\<rparr>
                         else sta)
                   else st)
                in st1\<lparr>threshold := bassEnergy * 1.1\<rparr>)
             else st)
      in (if length (intervals st2) \<ge> 4
          then Some (mathRound (fl (60000 / avg (intervals st2))))
          else None,
          st2))"

text \<open>The output rule in the words of the specification, in exact arithmetic.\<close>

definition specBpm :: "real list \<Rightarrow> int option" where
  "specBpm ivs =
     (if length ivs < 4 then None
      else Some (round (60000 / (sum_list ivs / real (length ivs)))))"

text \<open>What \<open>detectBpm\<close> keeps in the queue: at most 8 intervals, each in (300, 1000).\<close>

definition intervalsOk :: "beatState \<Rightarrow> bool" where
  "intervalsOk st =
     (length (intervals st) \<le> 8 \<and> (\<forall>x\<in>set (intervals st). 300 < x \<and> x < 1000))"

text \<open>A sequence of calls, each with its bass energy and its clock reading.\<close>

definition runBeat :: "(real \<times> real) list \<Rightarrow> beatState \<Rightarrow> beatState" where
  "runBeat calls st = fold (\<lambda>(bassEnergy, now) s. snd (detectBpm bassEnergy now s)) calls st"

text \<open>
  Six onsets of rising energy, at whole milliseconds: the first only sets
  \<open>lastBeatTime\<close>, the others record the intervals 534, 534, 533, 533 and 533.
\<close>

definition tieCalls :: "(real \<times> real) list" where
  "tieCalls = [(100, 5000), (110, 5534), (120, 6068), (130, 6601), (140, 7134), (150, 7667)]"

section \<open>Procedural sequencer (src/utils/audioSynth.ts)\<close>

text \<open>
  The runtime the class \<open>TechnoSynth\<close> talks to: the audio context (its clock, its state
  and the voices scheduled on it, in the order of the \<open>play\<dots>\<close> calls), the timeouts of
  \<open>window\<close> and \<open>Math.random\<close>. A call of \<open>Math.random()\<close> returns a number in
  [0, 1): the values it will return are a sequence \<open>rand\<close> of such numbers, and \<open>drawn\<close>
  counts the calls made so far. The calls that only fill the noise buffers of a voice are
  not modelled, as the samples of a voice are not.
\<close>

typedef unit_real = "{x::real. 0 \<le> x \<and> x < 1}"
  by (rule exI [of _ 0]) simp

datatype voice =
    Kick real
  | RumbleKick real
  | HiHat real bool real
  | BassNote real real
  | Click real
  | IndustrialPerc real

datatype ctx_state = Suspended | Running | Closed

record host =
  currentTime :: real
  ctxState :: ctx_state
  voices :: "voice list"
  timers :: "nat list"
  nextTimer :: nat
  rand :: "nat \<Rightarrow> unit_real"
  drawn :: nat

text \<open>The fields of \<open>TechnoSynth\<close>, with the two parameters of the delay line it sets.\<close>

record synth =
  isPlaying :: bool
  tempo :: int
  style :: string
  scheduleAheadTime :: real
  nextNoteTime :: real
  current16thNote :: nat
  timerID :: "nat option"
  lookahead :: real
  bassPattern :: "real list"
  delayGain :: real
  delayTime :: real

definition random :: "host \<Rightarrow> real \<times> host" where
  "random h = (Rep_unit_real (rand h (drawn h)), h\<lparr>drawn := drawn h + 1\<rparr>)"

definition fire :: "voice \<Rightarrow> host \<Rightarrow> host" where
  "fire v h = h\<lparr>voices := voices h @ [v]\<rparr>"

text \<open>\<open>window.setTimeout\<close> hands out a fresh handle; \<open>window.clearTimeout\<close> drops it.\<close>

definition setTimeout :: "host \<Rightarrow> nat \<times> host" where
  "setTimeout h = (nextTimer h, h\<lparr>timers := timers h @ [nextTimer h],
                                    nextTimer := nextTimer h + 1\<rparr>)"

definition clearTimeout :: "nat \<Rightarrow> host \<Rightarrow> host" where
  "clearTimeout t h = h\<lparr>timers := removeAll t (timers h)\<rparr>"

text \<open>One entry of \<open>Array(64).fill(0).map(\<dots>)\<close> after the other, each with its draws.\<close>

fun genPattern :: "(nat \<Rightarrow> host \<Rightarrow> real \<times> host) \<Rightarrow> nat list \<Rightarrow> host \<Rightarrow> real list \<times> host" where
  "genPattern f [] h = ([], h)"
| "genPattern f (i # is) h =
     (let (v, h1) = f i h;
          (vs, h2) = genPattern f is h1
      in (v # vs, h2))"

definition minimalEntry :: "nat \<Rightarrow> host \<Rightarrow> real \<times> host" where
  "minimalEntry i h =
     (let baseFreq = 55;
          intervalsTbl = [1, 1.5];
          stepInBar = i mod 16;
          probability = (if stepInBar mod 4 = 2 then 0.6 else 0.2);
          (r, h1) = random h
      in if r < probability
         then (let (r2, h2) = random h1
               in (baseFreq * (intervalsTbl ! nat \<lfloor>r2 * real (length intervalsTbl)\<rfloor>), h2))
         else (0, h1))"

definition generateMinimalPattern :: "host \<Rightarrow> synth \<Rightarrow> host \<times> synth" where
  "generateMinimalPattern h s =
     (let (p, h1) = genPattern minimalEntry [0..<64] h in (h1, s\<lparr>bassPattern := p\<rparr>))"

definition hardEntry :: "nat \<Rightarrow> host \<Rightarrow> real \<times> host" where
  "hardEntry i h =
     (let root = 45;
          stepInBar = i mod 16;
          (hit, h1) = (if stepInBar mod 4 \<noteq> 0
                       then (let (r, h') = random h in (r < 0.8, h'))
                       else (False, h))
      in if hit then (root, h1)
         else if stepInBar > 12
              then (let (r2, h2) = random h1 in (if r2 < 0.3 then root * 2 else 0, h2))
              else (0, h1))"

definition generateHardPattern :: "host \<Rightarrow> synth \<Rightarrow> host \<times> synth" where
  "generateHardPattern h s =
     (let (p, h1) = genPattern hardEntry [0..<64] h in (h1, s\<lparr>bassPattern := p\<rparr>))"

text \<open>
  \<open>regenerate(style?)\<close>. The argument is the value passed at run time (the union type
  \<open>'minimal' | 'hard'\<close> is erased); \<open>if (style)\<close> is false for no argument and for the
  empty string.
\<close>

definition regenerate :: "string option \<Rightarrow> host \<Rightarrow> synth \<Rightarrow> host \<times> synth" where
  "regenerate arg h s0 =
     (let s = (case arg of None \<Rightarrow> s0 | Some v \<Rightarrow> if v \<noteq> [] then s0\<lparr>style := v\<rparr> else s0)
      in if style s = ''hard''
         then (let (r, h1) = random h;
                   t = 140 + \<lfloor>r * 5\<rfloor>
               in generateHardPattern h1
                    (s\<lparr>tempo := t, delayGain := 0.4, delayTime := (60 / real_of_int t) * 0.75\<rparr>))
         else (let (r, h1) = random h;
                   t = 126 + \<lfloor>r * 4\<rfloor>
               in generateMinimalPattern h1
                    (s\<lparr>tempo := t, delayGain := 0.1, delayTime := (60 / real_of_int t) * 0.5\<rparr>)))"

text \<open>The field initialisers and the constructor, which ends in \<open>regenerate(style)\<close>.\<close>

definition fieldDefaults :: synth where
  "fieldDefaults = \<lparr>isPlaying = False, tempo = 130, style = ''minimal'',
     scheduleAheadTime = 0.1, nextNoteTime = 0, current16thNote = 0, timerID = None,
     lookahead = 25, bassPattern = [], delayGain = 0, delayTime = 0.375\<rparr>"

definition newSynth :: "string \<Rightarrow> host \<Rightarrow> host \<times> synth" where
  "newSynth st h = regenerate (Some st) h (fieldDefaults\<lparr>style := st\<rparr>)"

definition nextNote :: "synth \<Rightarrow> synth" where
  "nextNote s =
     (let secondsPerBeat = 60 / real_of_int (tempo s);
          c = current16thNote s + 1
      in s\<lparr>nextNoteTime := nextNoteTime s + 0.25 * secondsPerBeat,
            current16thNote := (if c = 64 then 0 else c)\<rparr>)"

text \<open>The four parts of \<open>scheduleNote(stepIndex, time)\<close>.\<close>

definition scheduleKick :: "nat \<Rightarrow> real \<Rightarrow> synth \<Rightarrow> host \<Rightarrow> host" where
  "scheduleKick stepInBar time s h =
     (if stepInBar mod 4 = 0
      then (if style s = ''hard'' then fire (RumbleKick time) h else fire (Kick time) h)
      else h)"

definition scheduleHats :: "nat \<Rightarrow> real \<Rightarrow> synth \<Rightarrow> host \<Rightarrow> host" where
  "scheduleHats stepInBar time s h =
     (if style s = ''hard''
      then (let h1 = (if stepInBar mod 4 = 2 then fire (HiHat time True 0) h else h);
                h2 = (if stepInBar mod 2 \<noteq> 0 then fire (HiHat time False 0) h1 else h1)
            in if stepInBar mod 4 = 0
               then (let (r, h3) = random h2
                     in if r > 0.5 then fire (HiHat time True 0.1) h3 else h3)
               else h2)
      else (if stepInBar mod 4 = 2 then fire (HiHat time True 0) h
            else (let (r, h1) = random h
                  in if r > 0.7 then fire (HiHat time False 0) h1 else h1)))"

definition scheduleBass :: "nat \<Rightarrow> real \<Rightarrow> synth \<Rightarrow> host \<Rightarrow> host" where
  "scheduleBass stepIndex time s h =
     (if stepIndex < length (bassPattern s) \<and> bassPattern s ! stepIndex > 0
      then fire (BassNote time (bassPattern s ! stepIndex)) h
      else h)"

definition schedulePerc :: "real \<Rightarrow> synth \<Rightarrow> host \<Rightarrow> host" where
  "schedulePerc time s h =
     (let (r, h1) = random h
      in if style s = ''hard''
         then (if r > 0.97 then fire (IndustrialPerc time) h1 else h1)
         else (if r > 0.95 then fire (Click time) h1 else h1))"

definition scheduleNote :: "nat \<Rightarrow> real \<Rightarrow> synth \<Rightarrow> host \<Rightarrow> host" where
  "scheduleNote stepIndex time s h =
     (let stepInBar = stepIndex mod 16
      in schedulePerc time s
           (scheduleBass stepIndex time s
              (scheduleHats stepInBar time s
                 (scheduleKick stepInBar time s h))))"

text \<open>The body of the \<open>while\<close> loop of \<open>scheduler\<close>, and the loop.\<close>

fun tick :: "host \<times> synth \<Rightarrow> host \<times> synth" where
  "tick (h, s) = (scheduleNote (current16thNote s) (nextNoteTime s) s h, nextNote s)"

partial_function (option) schedLoop :: "host \<times> synth \<Rightarrow> (host \<times> synth) option" where
  "schedLoop x =
     (if nextNoteTime (snd x) < currentTime (fst x) + scheduleAheadTime (snd x)
      then schedLoop (tick x)
      else Some x)"

definition armTimer :: "host \<times> synth \<Rightarrow> host \<times> synth" where
  "armTimer x =
     (if isPlaying (snd x)
      then (let (t, h1) = setTimeout (fst x) in (h1, (snd x)\<lparr>timerID := Some t\<rparr>))
      else x)"

definition scheduler :: "host \<times> synth \<Rightarrow> (host \<times> synth) option" where
  "scheduler x = map_option armTimer (schedLoop x)"

text \<open>\<open>ctx.resume()\<close> on a suspended context.\<close>

definition resume :: "host \<Rightarrow> host" where
  "resume h = (if ctxState h = Suspended then h\<lparr>ctxState := Running\<rparr> else h)"

definition play :: "host \<times> synth \<Rightarrow> (host \<times> synth) option" where
  "play x =
     (if isPlaying (snd x) then Some x
      else scheduler (resume (fst x),
                      (snd x)\<lparr>isPlaying := True, current16thNote := 0,
                               nextNoteTime := currentTime (fst x) + 0.05\<rparr>))"

text \<open>\<open>if (this.timerID)\<close> is false for \<open>undefined\<close> and for the handle 0.\<close>

definition stop :: "host \<times> synth \<Rightarrow> host \<times> synth" where
  "stop x =
     (let s = (snd x)\<lparr>isPlaying := False\<rparr>
      in (case timerID s of
            None \<Rightarrow> (fst x, s)
          | Some t \<Rightarrow> if t \<noteq> 0 then (clearTimeout t (fst x), s) else (fst x, s)))"

text \<open>The voices added between two states of the runtime, and the kicks among them.\<close>

definition newVoices :: "host \<Rightarrow> host \<Rightarrow> voice list" where
  "newVoices h h' = drop (length (voices h)) (voices h')"

fun isKick :: "voice \<Rightarrow> bool" where
  "isKick (Kick t) = True"
| "isKick (RumbleKick t) = True"
| "isKick v = False"

text \<open>The kicks fired by the step after \<open>k\<close> earlier steps.\<close>

definition kicksAt :: "nat \<Rightarrow> host \<times> synth \<Rightarrow> voice list" where
  "kicksAt k x = filter isKick (newVoices (fst ((tick ^^ k) x)) (fst (tick ((tick ^^ k) x))))"

text \<open>No kick among the voices added between two states of the runtime.\<close>

definition grows :: "host \<Rightarrow> host \<Rightarrow> bool" where
  "grows h h' = (\<exists>vs. voices h' = voices h @ vs \<and> filter isKick vs = [])"

text \<open>A runtime whose \<open>Math.random()\<close> always returns 0.5, for the examples.\<close>

definition quietHost :: host where
  "quietHost = \<lparr>currentTime = 0, ctxState = Suspended, voices = [], timers = [],
     nextTimer = 1, rand = (\<lambda>n. Abs_unit_real (1 / 2)), drawn = 0\<rparr>"

section \<open>Adaptive gain\<close>

lemma frameMax_fold_le:
  "m \<le> 255 \<Longrightarrow> fold (\<lambda>x m. if unat x > m then unat x else m) (data::frame) m \<le> 255"
proof (induction data arbitrary: m)
  case Nil
  then show ?case by simp
next
  case (Cons x xs)
  have "unat x \<le> 255"
    using unsigned_less [of x, where ?'a = nat] by simp
  then show ?case using Cons by simp
qed

lemma frameMax_le: "frameMax data \<le> 255"
  unfolding frameMax_def by (rule frameMax_fold_le) simp

lemma frameMax_replicate_0: "frameMax (replicate n 0) = 0"
  unfolding frameMax_def by (induction n) simp_all

lemma frameMax_replicate_fold:
  "unat x \<le> m \<Longrightarrow> fold (\<lambda>x m. if unat x > m then unat x else m) (replicate n x) m = m"
  by (induction n) (simp_all del: fold_replicate)

lemma frameMax_replicate_Suc: "frameMax (replicate (Suc n) x) = unat x"
  unfolding frameMax_def by (simp del: fold_replicate add: frameMax_replicate_fold)

lemma targetGain_bounds: "mv \<le> 255 \<Longrightarrow> 1 \<le> targetGain mv \<and> targetGain mv \<le> 5.1"
  unfolding targetGain_def safeMax_def
  by (auto simp: max_def field_simps)

lemma smooth_bounds:
  "1 \<le> (g::real) \<Longrightarrow> g \<le> 5.1 \<Longrightarrow> 1 \<le> t \<Longrightarrow> t \<le> 5.1
   \<Longrightarrow> 1 \<le> g + (t - g) * 0.1 \<and> g + (t - g) * 0.1 \<le> 5.1"
  by (intro conjI; argo)

lemma gainInv_update: "gainInv st \<Longrightarrow> gainInv (updateAutoGain data st)"
proof -
  assume a: "gainInv st"
  define fm where "fm = real (frameMax data)"
  define mv where "mv = (if fm > maxVolumeRef st then fm else maxVolumeRef st * 0.995)"
  have fm: "fm \<le> 255"
    using frameMax_le [of data] by (simp add: fm_def)
  have mv: "0 < mv \<and> mv \<le> 255"
    using a fm by (auto simp: mv_def gainInv_def)
  have tg: "1 \<le> targetGain mv \<and> targetGain mv \<le> 5.1"
    using mv targetGain_bounds by simp
  have g: "1 \<le> gainRef st \<and> gainRef st \<le> 5.1"
    using a by (simp add: gainInv_def)
  have eq: "updateAutoGain data st =
      st\<lparr>maxVolumeRef := mv, gainRef := gainRef st + (targetGain mv - gainRef st) * 0.1\<rparr>"
    by (simp add: updateAutoGain_def Let_def fm_def mv_def)
  from smooth_bounds [of "gainRef st" "targetGain mv"] g tg
  have "1 \<le> gainRef st + (targetGain mv - gainRef st) * 0.1 \<and>
        gainRef st + (targetGain mv - gainRef st) * 0.1 \<le> 5.1"
    by blast
  then show ?thesis
    using mv unfolding eq gainInv_def by simp
qed

lemma gainInv_init: "gainInv initAnalyzer"
  by (simp add: gainInv_def initAnalyzer_def)

lemma gainInv_runGain: "gainInv st \<Longrightarrow> gainInv (runGain fs st)"
  unfolding runGain_def
  by (induction fs arbitrary: st) (simp_all add: gainInv_update)

lemma decay_step:
  "0 \<le> maxVolumeRef s \<Longrightarrow>
   maxVolumeRef (updateAutoGain (replicate k 0) s) = maxVolumeRef s * 0.995"
  by (simp add: updateAutoGain_def Let_def frameMax_replicate_0 not_less)

lemma decay_silence:
  "0 \<le> maxVolumeRef st \<Longrightarrow>
   maxVolumeRef ((updateAutoGain (replicate k 0) ^^ n) st) = maxVolumeRef st * 0.995 ^ n"
proof (induction n)
  case 0
  then show ?case by simp
next
  case (Suc n)
  have "0 \<le> maxVolumeRef ((updateAutoGain (replicate k 0) ^^ n) st)"
    using Suc by simp
  from decay_step [OF this] show ?case
    using Suc by simp
qed

lemma runGain_replicate: "runGain (replicate n f) st = (updateAutoGain f ^^ n) st"
  unfolding runGain_def
  by (induction n arbitrary: st) (simp_all add: funpow_swap1)

lemma half_life: "(0.995::real) ^ 200 < 1 / 2"
proof -
  have "(2::real) < 1 + real 200 * (1 / 199)"
    by simp
  also have "\<dots> \<le> (1 + 1 / 199) ^ 200"
    by (rule Bernoulli_inequality) simp
  finally have big: "(2::real) < (200 / 199) ^ 200"
    by simp
  have "(0.995::real) ^ 200 * (200 / 199) ^ 200 = (0.995 * (200 / 199)) ^ 200"
    by (simp only: power_mult_distrib)
  also have "\<dots> = 1"
    by simp
  finally have inv: "(0.995::real) ^ 200 * (200 / 199) ^ 200 = 1" .
  have pos: "0 < (0.995::real) ^ 200"
    by simp
  have "(0.995::real) ^ 200 * 2 < (0.995::real) ^ 200 * (200 / 199) ^ 200"
    by (rule mult_strict_left_mono [OF big pos])
  then have "(0.995::real) ^ 200 * 2 < 1"
    by (simp only: inv)
  then show ?thesis
    by linarith
qed

text \<open>
  C4, as stated: the stored \<open>peakEnvelope\<close> (\<open>maxVolumeRef\<close>) never drops below 50.
  It does: after 200 silent frames from the initial state it is \<open>100 * 0.995 ^ 200\<close>,
  which is below 50. The release branch multiplies the stored value by 0.995 and
  nothing floors it.
\<close>

theorem peakEnvelope_below_floor:
  "maxVolumeRef (runGain (replicate 200 silence) initAnalyzer) < 50"
proof -
  have "maxVolumeRef (runGain (replicate 200 silence) initAnalyzer) = 100 * 0.995 ^ 200"
    unfolding runGain_replicate silence_def
    by (subst decay_silence) (simp_all add: initAnalyzer_def)
  then show ?thesis
    using half_life by linarith
qed

text \<open>
  C4, amended: for every sequence of frames from the initial state the stored
  \<open>peakEnvelope\<close> stays strictly positive (and at most 255), and the floor of 50 holds
  for \<open>safeMax = max(peakEnvelope, 50)\<close>, the divisor of the target gain, so that the
  target gain never exceeds \<open>255 / 50 = 5.1\<close>.
\<close>

theorem safeMax_floor:
  "0 < maxVolumeRef (runGain fs initAnalyzer) \<and>
   maxVolumeRef (runGain fs initAnalyzer) \<le> 255 \<and>
   50 \<le> safeMax (maxVolumeRef (runGain fs initAnalyzer)) \<and>
   targetGain (maxVolumeRef (runGain fs initAnalyzer)) \<le> 5.1"
proof -
  have inv: "gainInv (runGain fs initAnalyzer)"
    by (rule gainInv_runGain [OF gainInv_init])
  then have le: "maxVolumeRef (runGain fs initAnalyzer) \<le> 255"
    by (simp add: gainInv_def)
  have "50 \<le> safeMax (maxVolumeRef (runGain fs initAnalyzer))"
    by (simp add: safeMax_def)
  then show ?thesis
    using inv targetGain_bounds [OF le] by (simp add: gainInv_def)
qed

section \<open>Band extractors\<close>

lemma sumBins_fold_Num:
  "\<forall>i\<in>set is. i < length data \<Longrightarrow>
   \<exists>v. fold (\<lambda>i (s, c). (jadd s (readBin data i), c + 1)) is (Num a, c0) = (Num v, c0 + length is) \<and> a \<le> v"
proof (induction "is" arbitrary: a c0)
  case Nil
  then show ?case by simp
next
  case (Cons i "is")
  have i: "i < length data" using Cons.prems by simp
  have r: "\<forall>i\<in>set is. i < length data" using Cons.prems by simp
  from Cons.IH [OF r, of "a + real (unat (data ! i))" "c0 + 1"]
  obtain v where "fold (\<lambda>i (s, c). (jadd s (readBin data i), c + 1)) is (Num (a + real (unat (data ! i))), c0 + 1) = (Num v, c0 + 1 + length is)"
     and "a + real (unat (data ! i)) \<le> v" by blast
  moreover have "0 \<le> real (unat (data ! i))" by (rule of_nat_0_le_iff)
  ultimately show ?case using i by (simp add: readBin_def)
qed

lemma sumBins_Num:
  "\<forall>i\<in>set is. i < length data \<Longrightarrow> \<exists>v. sumBins data is = (Num v, length is) \<and> 0 \<le> v"
  unfolding sumBins_def using sumBins_fold_Num [of "is" data 0 0] by simp

lemma sumBins_fold_const:
  "\<forall>i\<in>set is. i < length data \<and> data ! i = x \<Longrightarrow>
   fold (\<lambda>i (s, c). (jadd s (readBin data i), c + 1)) is (Num a, c0)
     = (Num (a + real (length is) * real (unat x)), c0 + length is)"
proof (induction "is" arbitrary: a c0)
  case Nil
  then show ?case by simp
next
  case (Cons i "is")
  then show ?case by (simp add: readBin_def algebra_simps)
qed

lemma sumBins_replicate:
  "\<forall>i\<in>set is. i < n \<Longrightarrow> sumBins (replicate n x) is = (Num (real (length is) * real (unat x)), length is)"
  unfolding sumBins_def using sumBins_fold_const [of "is" "replicate n x" x 0 0] by simp

lemma sumBins_NaN_fold:
  "fold (\<lambda>i (s, c). (jadd s (readBin data i), c + 1)) is (NaN, c0) = (NaN, c0 + length is)"
  by (induction "is" arbitrary: c0) simp_all

lemma frameMax_replicate: "0 < n \<Longrightarrow> frameMax (replicate n x) = unat x"
  by (cases n) (simp_all only: frameMax_replicate_Suc)

lemma highBins_in_frame: "\<forall>i\<in>set (highBins data). i < length data"
  by (simp add: highBins_def)

lemma isNum_iff: "isNum x = (\<exists>v. x = Num v)"
  by (cases x) simp_all

lemma high_defined:
  assumes "isNum (history_high st)"
  shows "inRange (fst (getHighEnergy (Some data) st)) \<and>
         isNum (history_high (snd (getHighEnergy (Some data) st)))"
proof -
  obtain h where h: "history_high st = Num h"
    using assms by (auto simp: isNum_iff)
  obtain v where v: "sumBins data (highBins data) = (Num v, length (highBins data))"
    using sumBins_Num [OF highBins_in_frame] by blast
  show ?thesis
    by (simp add: getHighEnergy_def v h Let_def)
qed

lemma bass_defined:
  assumes "4 \<le> length data" and "isNum (history_bass st)"
  shows "isNum (fst (getBassEnergy (Some data) st)) \<and>
         isNum (history_bass (snd (getBassEnergy (Some data) st)))"
proof -
  obtain h where h: "history_bass st = Num h"
    using assms by (auto simp: isNum_iff)
  have "\<forall>i\<in>set [0..<bassBins]. i < length data"
    using assms by (simp add: bassBins_def)
  from sumBins_Num [OF this]
  obtain v where v: "sumBins data [0..<bassBins] = (Num v, length [0..<bassBins])"
    by blast
  have hb: "history_bass (updateAutoGain data st) = Num h"
    by (simp add: updateAutoGain_def Let_def h)
  show ?thesis
    by (simp add: getBassEnergy_def v hb Let_def)
qed

lemma mid_defined:
  assumes "30 \<le> length data" and "isNum (history_mid st)"
  shows "isNum (fst (getMidEnergy (Some data) st)) \<and>
         isNum (history_mid (snd (getMidEnergy (Some data) st)))"
proof -
  obtain h where h: "history_mid st = Num h"
    using assms by (auto simp: isNum_iff)
  have "\<forall>i\<in>set midBins. i < length data"
    using assms by (simp add: midBins_def)
  from sumBins_Num [OF this]
  obtain v where v: "sumBins data midBins = (Num v, length midBins)"
    by blast
  have c: "0 < length midBins"
    by (simp add: midBins_def)
  show ?thesis
    by (simp add: getMidEnergy_def v h c Let_def)
qed


text \<open>
  On the same frame of 16 bins \<open>getHighEnergy\<close> visits no bin and returns 0, and the
  \<open>NaN\<close> stays in the mid history: the next poll returns \<open>NaN\<close> on a full frame too.
\<close>

lemma high_on_short_frame:
  "highBins (replicate 16 7) = [] \<and>
   fst (getHighEnergy (Some (replicate 16 7)) initAnalyzer) = Num 0"
  by (simp add: getHighEnergy_def highBins_def sumBins_def initAnalyzer_def Let_def)

lemma mid_history_poisoned:
  "fst (getMidEnergy (Some silence)
         (snd (getMidEnergy (Some (replicate 16 7)) initAnalyzer))) = NaN"
proof -
  have "history_mid (snd (getMidEnergy (Some (replicate 16 7)) initAnalyzer)) = NaN"
    by (simp add: getMidEnergy_def Let_def sumBins_def readBin_def upt_rec
        initAnalyzer_def midBins_def)
  then show ?thesis
    by (simp add: getMidEnergy_def Let_def split_beta)
qed

lemma bass_first:
  "snd (getBassEnergy (Some silence) initAnalyzer)
   = \<lparr>maxVolumeRef = 199 / 2, gainRef = 2301 / 1990,
      history_bass = Num 0, history_high = Num 0, history_mid = Num 0\<rparr>"
  by (simp add: getBassEnergy_def updateAutoGain_def Let_def silence_def initAnalyzer_def
      frameMax_replicate sumBins_replicate targetGain_def safeMax_def bassBins_def)

lemma frameMax_kick: "frameMax kick = 255"
proof -
  have "fold (\<lambda>x m. if unat x > m then unat x else m) (replicate 4 (255 :: 8 word)) 0 = 255"
    using frameMax_replicate [of 4 "255 :: 8 word"] by (simp add: frameMax_def)
  then show ?thesis
    unfolding frameMax_def kick_def fold_append
    by (simp del: fold_replicate add: frameMax_replicate_fold)
qed

lemma sumBins_kick: "sumBins kick [0..<bassBins] = (Num 1020, 4)"
proof -
  have "\<forall>i\<in>set [0..<bassBins]. i < length kick \<and> kick ! i = 255"
    by (simp add: bassBins_def kick_def nth_append)
  from sumBins_fold_const [OF this, of 0 0] show ?thesis
    by (simp add: sumBins_def bassBins_def)
qed

text \<open>
  C1: every value returned by the three extractors lies in [0,255]. \<open>getMidEnergy\<close>
  and \<open>getHighEnergy\<close> end in \<open>Math.min(\<dots>, 255)\<close>; \<open>getBassEnergy\<close> clamps only
  the transient and adds \<open>currentAvg * 0.2\<close> unclamped. From the initial state, one
  silent frame followed by a frame whose four bass bins are at 255 makes it return
  \<open>5217249 / 19900\<close>, about 262.17.
\<close>

theorem bass_exceeds_255:
  "fst (getBassEnergy (Some kick) (snd (getBassEnergy (Some silence) initAnalyzer)))
     = Num (5217249 / 19900) \<and> (255::real) < 5217249 / 19900"
  unfolding bass_first
  by (simp add: getBassEnergy_def updateAutoGain_def Let_def
      frameMax_kick sumBins_kick [unfolded bassBins_def] targetGain_def safeMax_def bassBins_def)

text \<open>
  The rest of the range holds along every run of polls on frames of at least 30 bins:
  the bass value is a number and not negative, the mid and high values lie in [0,255].
\<close>

lemma histInv_init: "histInv initAnalyzer"
  by (simp add: histInv_def gainInv_init) (simp add: initAnalyzer_def)

lemma gainInv_hist [simp]:
  "gainInv (st\<lparr>history_bass := b\<rparr>) = gainInv st"
  "gainInv (st\<lparr>history_mid := m\<rparr>) = gainInv st"
  "gainInv (st\<lparr>history_high := g\<rparr>) = gainInv st"
  by (simp_all add: gainInv_def)

lemma hist_update [simp]:
  "history_bass (updateAutoGain data st) = history_bass st"
  "history_mid (updateAutoGain data st) = history_mid st"
  "history_high (updateAutoGain data st) = history_high st"
  by (simp_all add: updateAutoGain_def Let_def)

lemma bass_poll:
  assumes "histInv st" and "fullFrame src"
  shows "histInv (snd (getBassEnergy src st)) \<and>
         (\<exists>v. fst (getBassEnergy src st) = Num v \<and> 0 \<le> v)"
proof (cases src)
  case None
  then show ?thesis using assms by (simp add: getBassEnergy_def)
next
  case (Some data)
  obtain h where h: "history_bass st = Num h"
    using assms by (auto simp: histInv_def isNum_iff)
  have "\<forall>i\<in>set [0..<bassBins]. i < length data"
    using assms Some by (simp add: bassBins_def fullFrame_def)
  from sumBins_Num [OF this]
  obtain v where v: "sumBins data [0..<bassBins] = (Num v, length [0..<bassBins])" "0 \<le> v"
    by blast
  have g: "gainInv (updateAutoGain data st)"
    using assms by (simp add: histInv_def gainInv_update)
  then have g0: "0 \<le> gainRef (updateAutoGain data st)"
    by (simp add: gainInv_def)
  have r: "fst (getBassEnergy src st) =
      Num (min (max 0 (v / real bassBins * gainRef (updateAutoGain data st) - h) * 2.5) 255 * 0.8
           + v / real bassBins * gainRef (updateAutoGain data st) * 0.2)"
    by (simp add: getBassEnergy_def Some v h Let_def)
  have "0 \<le> min (max 0 (v / real bassBins * gainRef (updateAutoGain data st) - h) * 2.5) 255 * 0.8"
    by simp
  then have nn: "0 \<le> min (max 0 (v / real bassBins * gainRef (updateAutoGain data st) - h) * 2.5) 255 * 0.8
           + v / real bassBins * gainRef (updateAutoGain data st) * 0.2"
    using v(2) g0 by (intro add_nonneg_nonneg mult_nonneg_nonneg) simp_all
  have "histInv (snd (getBassEnergy src st))"
    using assms g by (simp add: getBassEnergy_def Some v h Let_def histInv_def)
  then show ?thesis
    using r nn by blast
qed

lemma mid_poll:
  assumes "histInv st" and "fullFrame src"
  shows "histInv (snd (getMidEnergy src st)) \<and> inRange (fst (getMidEnergy src st))"
proof (cases src)
  case None
  then show ?thesis using assms by (simp add: getMidEnergy_def)
next
  case (Some data)
  obtain h where h: "history_mid st = Num h" "0 \<le> h"
    using assms by (cases "history_mid st") (auto simp: histInv_def)
  have "\<forall>i\<in>set midBins. i < length data"
    using assms Some by (simp add: midBins_def fullFrame_def)
  from sumBins_Num [OF this]
  obtain v where v: "sumBins data midBins = (Num v, length midBins)" "0 \<le> v"
    by blast
  have c: "0 < length midBins"
    by (simp add: midBins_def)
  have g0: "0 \<le> gainRef st"
    using assms by (simp add: histInv_def gainInv_def)
  have m: "0 \<le> h * 0.8 + v / real (length midBins) * gainRef st * 0.2"
    using h(2) v(2) g0 by (intro add_nonneg_nonneg mult_nonneg_nonneg) simp_all
  show ?thesis
    using assms m by (simp add: getMidEnergy_def Some v h c Let_def histInv_def)
qed

lemma high_poll:
  assumes "histInv st"
  shows "histInv (snd (getHighEnergy src st)) \<and> inRange (fst (getHighEnergy src st))"
proof (cases src)
  case None
  then show ?thesis using assms by (simp add: getHighEnergy_def)
next
  case (Some data)
  have n: "isNum (history_high st)"
    using assms by (simp add: histInv_def)
  have f: "history_bass (snd (getHighEnergy (Some data) st)) = history_bass st"
    "history_mid (snd (getHighEnergy (Some data) st)) = history_mid st"
    "gainInv (snd (getHighEnergy (Some data) st)) = gainInv st"
    by (simp_all add: getHighEnergy_def Let_def split_beta)
  show ?thesis
    using high_defined [OF n, of data] assms unfolding Some histInv_def f by simp
qed

lemma poll_inv:
  assumes "histInv st" and "fullFrame src"
  shows "histInv (snd (poll b src st)) \<and> isNum (fst (poll b src st)) \<and>
         (b = Bass \<or> inRange (fst (poll b src st)))"
  using bass_poll [OF assms] mid_poll [OF assms] high_poll [OF assms(1), of src]
  by (cases b) (auto simp: isNum_iff elim: inRange.elims)

lemma runPolls_inv:
  "histInv st \<Longrightarrow> \<forall>p\<in>set ps. fullFrame (snd p) \<Longrightarrow> histInv (runPolls ps st)"
  unfolding runPolls_def
  by (induction ps arbitrary: st) (auto simp: poll_inv)

text \<open>
  C6, as stated: each of the three extractors runs the gain update. Polling
  \<open>getMidEnergy\<close> or \<open>getHighEnergy\<close> on a silent frame leaves \<open>maxVolumeRef\<close> and
  \<open>gainRef\<close> as they were, although the gain update on that frame changes both.
\<close>

theorem mid_high_leave_gain:
  "maxVolumeRef (snd (getMidEnergy (Some silence) initAnalyzer)) = maxVolumeRef initAnalyzer \<and>
   gainRef (snd (getMidEnergy (Some silence) initAnalyzer)) = gainRef initAnalyzer \<and>
   maxVolumeRef (snd (getHighEnergy (Some silence) initAnalyzer)) = maxVolumeRef initAnalyzer \<and>
   gainRef (snd (getHighEnergy (Some silence) initAnalyzer)) = gainRef initAnalyzer \<and>
   maxVolumeRef (updateAutoGain silence initAnalyzer) \<noteq> maxVolumeRef initAnalyzer \<and>
   gainRef (updateAutoGain silence initAnalyzer) \<noteq> gainRef initAnalyzer"
  by (simp add: getMidEnergy_def getHighEnergy_def Let_def split_beta updateAutoGain_def
      silence_def frameMax_replicate_0 initAnalyzer_def targetGain_def safeMax_def)

lemma mid_gain: "maxVolumeRef (snd (getMidEnergy src st)) = maxVolumeRef st \<and>
   gainRef (snd (getMidEnergy src st)) = gainRef st"
  by (simp add: getMidEnergy_def Let_def split_beta split: option.splits)

lemma high_gain: "maxVolumeRef (snd (getHighEnergy src st)) = maxVolumeRef st \<and>
   gainRef (snd (getHighEnergy src st)) = gainRef st"
  by (simp add: getHighEnergy_def Let_def split_beta split: option.splits)

lemma bass_gain: "maxVolumeRef (snd (getBassEnergy (Some data) st)) = maxVolumeRef (updateAutoGain data st) \<and>
   gainRef (snd (getBassEnergy (Some data) st)) = gainRef (updateAutoGain data st)"
  by (simp add: getBassEnergy_def Let_def)

text \<open>
  C6, amended: only \<open>getBassEnergy\<close> calls \<open>updateAutoGain\<close>; \<open>getMidEnergy\<close> and
  \<open>getHighEnergy\<close> read \<open>gainRef\<close> and leave the gain state unchanged. Polling bass,
  high and mid on one frame (the order of the animation loop) therefore applies the
  gain adaptation once.
\<close>

theorem gain_update_only_in_bass:
  "maxVolumeRef (snd (getBassEnergy (Some data) st)) = maxVolumeRef (updateAutoGain data st) \<and>
   gainRef (snd (getBassEnergy (Some data) st)) = gainRef (updateAutoGain data st) \<and>
   maxVolumeRef (snd (getMidEnergy src st)) = maxVolumeRef st \<and>
   gainRef (snd (getMidEnergy src st)) = gainRef st \<and>
   maxVolumeRef (snd (getHighEnergy src st)) = maxVolumeRef st \<and>
   gainRef (snd (getHighEnergy src st)) = gainRef st \<and>
   maxVolumeRef (runPolls [(Bass, Some data), (High, Some data), (Mid, Some data)] st)
     = maxVolumeRef (updateAutoGain data st) \<and>
   gainRef (runPolls [(Bass, Some data), (High, Some data), (Mid, Some data)] st)
     = gainRef (updateAutoGain data st)"
  by (simp add: runPolls_def mid_gain high_gain bass_gain)

section \<open>Tempo estimator\<close>

lemma pushInterval_ok:
  "length ivs \<le> 8 \<Longrightarrow> \<forall>x\<in>set ivs. 300 < x \<and> x < 1000 \<Longrightarrow> 300 < i \<Longrightarrow> i < 1000 \<Longrightarrow>
   length (pushInterval i ivs) \<le> 8 \<and> (\<forall>x\<in>set (pushInterval i ivs). 300 < x \<and> x < 1000)"
  by (cases ivs) (auto simp: pushInterval_def Let_def)

lemma intervalsOk_detectBpm: "intervalsOk st \<Longrightarrow> intervalsOk (snd (detectBpm bassEnergy now st))"
  using pushInterval_ok [of "intervals st" "fl (now - lastBeatTime st)"]
  by (simp add: detectBpm_def Let_def intervalsOk_def decayThreshold_def)

lemma intervalsOk_init: "intervalsOk initBeat"
  by (simp add: intervalsOk_def initBeat_def)

lemma intervalsOk_runBeat: "intervalsOk st \<Longrightarrow> intervalsOk (runBeat calls st)"
  unfolding runBeat_def
  by (induction calls arbitrary: st) (auto simp: intervalsOk_detectBpm)

text \<open>Rounding to the nearest double: what it returns, and how far it is from its argument.\<close>

lemma roundEven_of_int [simp]: "roundEven (of_int z) = z"
  by (simp add: roundEven_def)

lemma roundEven_close: "\<bar>of_int (roundEven y) - y\<bar> \<le> 1 / 2"
proof -
  define f where "f = \<lfloor>y\<rfloor>"
  have f: "of_int f \<le> y" "y < of_int f + 1"
    unfolding f_def by linarith+
  consider "y - of_int f < 1 / 2" | "1 / 2 < y - of_int f" | "y - of_int f = 1 / 2"
    by linarith
  then show ?thesis
  proof cases
    case 1
    then have "roundEven y = f" by (simp add: roundEven_def f_def)
    then show ?thesis using f 1 by simp
  next
    case 2
    then have "roundEven y = f + 1" by (simp add: roundEven_def f_def)
    then show ?thesis using f 2 by simp
  next
    case 3
    then have "roundEven y = f \<or> roundEven y = f + 1" by (simp add: roundEven_def f_def Let_def)
    then show ?thesis using f 3 by auto
  qed
qed

lemma ulp_eq:
  assumes "2 ^ n \<le> x" and "x < 2 ^ Suc n"
  shows "ulp x = 2 powr (real n - 52)"
proof -
  have "(0::real) < 2 ^ n" by simp
  then have x: "0 < x" using assms(1) by linarith
  have a: "2 powr real_of_int (int n) \<le> x"
    using assms(1) by (simp add: powr_realpow)
  have "2 powr real_of_int (int n + 1) = 2 ^ Suc n"
    by (simp add: powr_add powr_realpow)
  then have b: "x < 2 powr real_of_int (int n + 1)"
    using assms(2) by simp
  have "\<lfloor>log 2 x\<rfloor> = int n"
    using floor_log_eq_powr_iff [of x 2 "int n"] x a b by simp
  then show ?thesis
    using x by (simp add: ulp_def)
qed

lemma fl_pos:
  assumes "2 ^ n \<le> x" and "x < 2 ^ Suc n" and "n \<le> 52"
  shows "fl x = of_int (roundEven (x * 2 ^ (52 - n))) / 2 ^ (52 - n)"
proof -
  have "(0::real) < 2 ^ n" by simp
  then have x: "x \<noteq> 0" using assms(1) by linarith
  have e: "real n - 52 = - real (52 - n)" using assms(3) by simp
  have "ulp x = 2 powr (- real (52 - n))"
    unfolding ulp_eq [OF assms(1,2)] e by (rule refl)
  also have "\<dots> = inverse (2 ^ (52 - n))"
    by (simp only: powr_minus powr_realpow zero_less_numeral)
  finally have u: "ulp x = inverse (2 ^ (52 - n))" .
  show ?thesis
    using x unfolding fl_def u by (simp add: divide_inverse)
qed

lemma fl_exact:
  assumes "2 ^ n \<le> x" and "x < 2 ^ Suc n" and "n \<le> 52" and "x * 2 ^ (52 - n) = of_int z"
  shows "fl x = x"
proof -
  have "fl x = of_int z / 2 ^ (52 - n)"
    unfolding fl_pos [OF assms(1-3)] assms(4) by simp
  also have "\<dots> = x"
    unfolding assms(4) [symmetric] by simp
  finally show ?thesis .
qed

lemma fl_err:
  assumes "0 < x"
  shows "\<bar>fl x - x\<bar> \<le> x / 2 ^ 53"
proof -
  define k where "k = \<lfloor>log 2 x\<rfloor>"
  define u where "u = (2::real) powr (of_int k - 52)"
  have u: "0 < u" by (simp add: u_def)
  have lo: "2 powr of_int k \<le> x"
    using floor_log_eq_powr_iff [of x 2 k] assms by (simp add: k_def)
  have ux: "ulp x = u"
    using assms by (simp add: ulp_def u_def k_def)
  have "fl x - x = (of_int (roundEven (x / u)) - x / u) * u"
    using assms u by (simp add: fl_def ux algebra_simps)
  then have "\<bar>fl x - x\<bar> = \<bar>of_int (roundEven (x / u)) - x / u\<bar> * u"
    using u by (simp add: abs_mult)
  also have "\<dots> \<le> 1 / 2 * u"
    using roundEven_close [of "x / u"] u by (intro mult_right_mono) simp_all
  also have "1 / 2 * u = 2 powr of_int k / 2 ^ 53"
  proof -
    have "u = 2 powr of_int k * 2 powr (- 52)"
      unfolding u_def by (simp add: powr_add [symmetric])
    also have "(2::real) powr (- 52) = 1 / 2 ^ 52"
      by (simp add: powr_minus_divide)
    finally show ?thesis by simp
  qed
  also have "\<dots> \<le> x / 2 ^ 53"
    using lo by (intro divide_right_mono) simp_all
  finally show ?thesis .
qed

text \<open>The rounding errors of the sum, the average and the quotient, added up.\<close>

lemma sum_err:
  assumes "\<forall>b\<in>set ivs. 300 < b \<and> b < 1000"
    and "\<bar>a - A\<bar> \<le> real k * (9001 / 2 ^ 53)"
    and "0 \<le> A"
    and "A + 1000 * real (length ivs) \<le> 8000"
    and "k + length ivs \<le> 8"
  shows "\<bar>fold (\<lambda>b a. fl (a + b)) ivs a - (A + sum_list ivs)\<bar>
           \<le> real (k + length ivs) * (9001 / 2 ^ 53)"
  using assms
proof (induction ivs arbitrary: a A k)
  case Nil
  then show ?case by simp
next
  case (Cons b ivs)
  define c :: real where "c = 9001 / 2 ^ 53"
  have c: "0 < c" "8 * c \<le> 1" "8001 / 2 ^ 53 \<le> c"
    by (simp_all add: c_def)
  have b: "300 < b" "b < 1000"
    using Cons.prems(1) by simp_all
  have k: "real k \<le> 8"
    using Cons.prems(5) by simp
  then have kc: "real k * c \<le> 1"
    using c mult_right_mono [of "real k" 8 c] by linarith
  have aA: "\<bar>a - A\<bar> \<le> real k * c"
    using Cons.prems(2) by (simp add: c_def)
  have A: "A + 1000 \<le> 8000"
    using Cons.prems(4) by simp
  have pos: "0 < a + b" and up: "a + b \<le> 8001"
    using aA kc b A Cons.prems(3) by linarith+
  have "\<bar>fl (a + b) - (a + b)\<bar> \<le> (a + b) / 2 ^ 53"
    by (rule fl_err [OF pos])
  also have "\<dots> \<le> 8001 / 2 ^ 53"
    using up by (intro divide_right_mono) simp_all
  finally have e: "\<bar>fl (a + b) - (a + b)\<bar> \<le> c"
    using c by linarith
  have step: "\<bar>fl (a + b) - (A + b)\<bar> \<le> real (Suc k) * c"
    using e aA by (simp add: algebra_simps)
  have "\<bar>fold (\<lambda>b a. fl (a + b)) ivs (fl (a + b)) - (A + b + sum_list ivs)\<bar>
           \<le> real (Suc k + length ivs) * (9001 / 2 ^ 53)"
  proof (rule Cons.IH)
    show "\<forall>b\<in>set ivs. 300 < b \<and> b < 1000"
      using Cons.prems(1) by simp
    show "\<bar>fl (a + b) - (A + b)\<bar> \<le> real (Suc k) * (9001 / 2 ^ 53)"
      using step by (simp add: c_def)
    show "0 \<le> A + b"
      using Cons.prems(3) b by linarith
    show "A + b + 1000 * real (length ivs) \<le> 8000"
      using Cons.prems(4) b by simp
    show "Suc k + length ivs \<le> 8"
      using Cons.prems(5) by simp
  qed
  then show ?case
    by (simp add: algebra_simps)
qed

lemma sum_list_bounds:
  "\<forall>b\<in>set ivs. 300 < b \<and> b < (1000::real) \<Longrightarrow>
   300 * real (length ivs) \<le> sum_list ivs \<and> sum_list ivs \<le> 1000 * real (length ivs)"
  by (induction ivs) (auto simp: algebra_simps)

lemma mathRound_close: "\<bar>of_int (mathRound x) - x\<bar> \<le> 1 / 2"
  unfolding mathRound_def by linarith

lemma bpm_err:
  assumes ok: "\<forall>b\<in>set ivs. 300 < b \<and> b < 1000"
    and len: "4 \<le> length ivs" "length ivs \<le> 8"
  shows "\<bar>of_int (mathRound (fl (60000 / avg ivs))) - 60000 / (sum_list ivs / real (length ivs))\<bar>
           \<le> 1 / 2 + 1 / 2 ^ 38"
proof -
  define c :: real where "c = 9001 / 2 ^ 53"
  define n where "n = real (length ivs)"
  define S where "S = sum_list ivs"
  define S' where "S' = fold (\<lambda>b a. fl (a + b)) ivs 0"
  define M where "M = S / n"
  define m where "m = fl (S' / n)"
  define Q where "Q = 60000 / M"
  define q where "q = fl (60000 / m)"
  have c: "0 < c" "8 * c \<le> 1" "3 * c + 201 / 2 ^ 53 \<le> 1 / 2 ^ 38" "8001 / 4 / 2 ^ 53 \<le> c"
    by (simp_all add: c_def)
  have n: "4 \<le> n" "n \<le> 8"
    using len by (simp_all add: n_def)
  have S: "300 * n \<le> S" "S \<le> 1000 * n"
    using sum_list_bounds [OF ok] by (simp_all add: S_def n_def)
  have M: "300 \<le> M" "M \<le> 1000"
    using S n by (simp_all add: M_def field_simps)
  have "\<bar>S' - (0 + S)\<bar> \<le> real (0 + length ivs) * (9001 / 2 ^ 53)"
    unfolding S'_def S_def using ok len by (intro sum_err) simp_all
  then have "\<bar>S' - S\<bar> \<le> n * c"
    by (simp add: n_def c_def)
  also have "n * c \<le> 8 * c"
    using n c by (intro mult_right_mono) simp_all
  finally have S': "\<bar>S' - S\<bar> \<le> 8 * c" .
  have S'pos: "0 < S'" and S'up: "S' \<le> 8001"
    using S' S n c by linarith+
  have xpos: "0 < S' / n"
    using S'pos n by simp
  have "\<bar>m - S' / n\<bar> \<le> S' / n / 2 ^ 53"
    unfolding m_def by (rule fl_err [OF xpos])
  also have "S' / n / 2 ^ 53 \<le> 8001 / 4 / 2 ^ 53"
    using S'up S'pos n by (intro divide_right_mono frac_le) simp_all
  finally have m1: "\<bar>m - S' / n\<bar> \<le> c"
    using c by linarith
  have "\<bar>S' / n - M\<bar> = \<bar>S' - S\<bar> / n"
    using n by (simp add: M_def diff_divide_distrib [symmetric])
  also have "\<dots> \<le> 8 * c / 4"
    using S' n c by (intro frac_le) simp_all
  finally have m2: "\<bar>S' / n - M\<bar> \<le> 2 * c"
    by simp
  have mM: "\<bar>m - M\<bar> \<le> 3 * c"
    using m1 m2 by linarith
  have m: "299 \<le> m"
    using mM M c by linarith
  have ypos: "0 < 60000 / m" and yup: "60000 / m \<le> 201"
    using m by (simp_all add: field_simps)
  have "\<bar>q - 60000 / m\<bar> \<le> 60000 / m / 2 ^ 53"
    unfolding q_def by (rule fl_err [OF ypos])
  also have "\<dots> \<le> 201 / 2 ^ 53"
    using yup by (intro divide_right_mono) simp_all
  finally have q1: "\<bar>q - 60000 / m\<bar> \<le> 201 / 2 ^ 53" .
  have "\<bar>60000 / m - Q\<bar> = \<bar>60000 * (M - m) / (m * M)\<bar>"
    using m M by (simp add: Q_def field_simps)
  also have "\<dots> = 60000 * \<bar>M - m\<bar> / (m * M)"
  proof -
    have "0 < m * M" using m M by simp
    then have a: "\<bar>m * M\<bar> = m * M" by (rule abs_of_pos)
    have b: "\<bar>60000 * (M - m)\<bar> = 60000 * \<bar>M - m\<bar>"
      by (simp only: abs_mult abs_numeral)
    show ?thesis unfolding abs_divide a b by (rule refl)
  qed
  finally have "\<bar>60000 / m - Q\<bar> = 60000 * \<bar>M - m\<bar> / (m * M)" .
  also have "\<dots> \<le> 60000 * (3 * c) / (299 * 300)"
  proof (intro frac_le mult_left_mono mult_mono)
    show "\<bar>M - m\<bar> \<le> 3 * c" using mM by linarith
  qed (use m M c in simp_all)
  also have "\<dots> \<le> 3 * c"
    using c by simp
  finally have q2: "\<bar>60000 / m - Q\<bar> \<le> 3 * c" .
  have "\<bar>q - Q\<bar> \<le> 1 / 2 ^ 38"
    using q1 q2 c by linarith
  moreover have "\<bar>of_int (mathRound q) - q\<bar> \<le> 1 / 2"
    by (rule mathRound_close)
  ultimately have "\<bar>of_int (mathRound q) - Q\<bar> \<le> 1 / 2 + 1 / 2 ^ 38"
    by linarith
  then show ?thesis
    by (simp add: q_def m_def Q_def M_def S_def S'_def n_def avg_def)
qed

text \<open>The doubles of one run: six onsets that record 534, 534, 533, 533, 533 and 533.\<close>

lemma fl_whole:
  "fl 534 = 534" "fl 1068 = 1068" "fl 1601 = 1601" "fl 2134 = 2134" "fl 2667 = 2667"
  "fl 3200 = 3200" "fl 533 = 533" "fl 5000 = 5000"
proof -
  show "fl 533 = 533"
    by (rule fl_exact [where n = 9 and z = "533 * 2 ^ 43"]) simp_all
  show "fl 5000 = 5000"
    by (rule fl_exact [where n = 12 and z = "5000 * 2 ^ 40"]) simp_all
  show "fl 534 = 534"
    by (rule fl_exact [where n = 9 and z = "534 * 2 ^ 43"]) simp_all
  show "fl 1068 = 1068"
    by (rule fl_exact [where n = 10 and z = "1068 * 2 ^ 42"]) simp_all
  show "fl 1601 = 1601"
    by (rule fl_exact [where n = 10 and z = "1601 * 2 ^ 42"]) simp_all
  show "fl 2134 = 2134"
    by (rule fl_exact [where n = 11 and z = "2134 * 2 ^ 41"]) simp_all
  show "fl 2667 = 2667"
    by (rule fl_exact [where n = 11 and z = "2667 * 2 ^ 41"]) simp_all
  show "fl 3200 = 3200"
    by (rule fl_exact [where n = 11 and z = "3200 * 2 ^ 41"]) simp_all
qed

lemma avg_tie: "avg [534, 534, 533, 533, 533, 533] = 4691249611844267 / 2 ^ 43"
proof -
  have "fl (3200 / 6) = of_int (roundEven (3200 / 6 * 2 ^ (52 - 9))) / 2 ^ (52 - 9)"
    by (rule fl_pos) simp_all
  also have "roundEven (3200 / 6 * 2 ^ (52 - 9)) = 4691249611844267"
    by (simp add: roundEven_def Let_def)
  finally show ?thesis
    by (simp add: avg_def fl_whole)
qed

lemma quotient_tie:
  "fl (60000 / avg [534, 534, 533, 533, 533, 533]) = 7916483719987199 / 2 ^ 46"
proof -
  have "fl (60000 / (4691249611844267 / 2 ^ 43))
      = of_int (roundEven (60000 / (4691249611844267 / 2 ^ 43) * 2 ^ (52 - 6))) / 2 ^ (52 - 6)"
    by (rule fl_pos) simp_all
  also have "roundEven (60000 / (4691249611844267 / 2 ^ 43) * 2 ^ (52 - 6)) = 7916483719987199"
    by (simp add: roundEven_def Let_def)
  finally show ?thesis
    unfolding avg_tie by simp
qed

lemma tie_state:
  "runBeat tieCalls initBeat =
     \<lparr>lastBeatTime = 7667, intervals = [534, 534, 533, 533, 533], threshold = 165,
      minThreshold = 80\<rparr>"
  by (simp add: runBeat_def tieCalls_def detectBpm_def Let_def decayThreshold_def
      pushInterval_def initBeat_def fl_whole)

text \<open>
  C7, as stated: with 4 intervals or more the BPM call returns
  \<open>round(60000 / mean(intervals))\<close>. After the six onsets of \<open>tieCalls\<close> and a seventh
  at 8200 ms the queue holds 534, 534, 533, 533, 533 and 533, whose mean is \<open>3200 / 6\<close>
  and for which \<open>60000 / mean\<close> is exactly 112.5, rounded to 113. The call returns 112:
  the average is computed in doubles as 533.3333333333334 and the quotient as
  112.49999999999999.
\<close>

theorem bpm_tie_rounds_down:
  "fst (detectBpm 160 8200 (runBeat tieCalls initBeat)) = Some 112 \<and>
   specBpm (intervals (snd (detectBpm 160 8200 (runBeat tieCalls initBeat)))) = Some 113"
proof -
  have s: "snd (detectBpm 160 8200 (runBeat tieCalls initBeat)) =
     \<lparr>lastBeatTime = 8200, intervals = [534, 534, 533, 533, 533, 533], threshold = 176,
      minThreshold = 80\<rparr>"
    unfolding tie_state
    by (simp add: detectBpm_def Let_def decayThreshold_def pushInterval_def fl_whole)
  have "fst (detectBpm 160 8200 (runBeat tieCalls initBeat)) =
      Some (mathRound (fl (60000 / avg [534, 534, 533, 533, 533, 533])))"
    unfolding tie_state
    by (simp add: detectBpm_def Let_def decayThreshold_def pushInterval_def fl_whole)
  also have "\<dots> = Some 112"
    unfolding quotient_tie by (simp add: mathRound_def)
  finally show ?thesis
    unfolding s by (simp add: specBpm_def round_def)
qed

text \<open>
  C7, amended: for every state whose queue holds at most 8 intervals, each in
  (300, 1000) (the initial state, and every state \<open>detectBpm\<close> leads to from such a
  state), the BPM call returns nothing when fewer than 4 intervals are recorded as it
  returns, and otherwise returns \<open>Math.round\<close> of \<open>60000 / avg\<close> computed in double
  precision (the sum of the intervals, its quotient by their number and the quotient of
  60000, each rounded to the nearest double). That value lies within \<open>1/2 + 2^-38\<close> of
  the exact \<open>60000 / mean(intervals)\<close>. The queue keeps its bounds. \<open>detectBpm\<close> has
  no failing branch: it is a total function into \<open>int option\<close>.
\<close>

theorem bpm_output_double:
  assumes "intervalsOk st"
  shows "fst (detectBpm bassEnergy now st) =
           (if length (intervals (snd (detectBpm bassEnergy now st))) < 4 then None
            else Some (mathRound
                   (fl (60000 / avg (intervals (snd (detectBpm bassEnergy now st))))))) \<and>
         (4 \<le> length (intervals (snd (detectBpm bassEnergy now st))) \<longrightarrow>
            \<bar>of_int (mathRound
                   (fl (60000 / avg (intervals (snd (detectBpm bassEnergy now st))))))
              - 60000 / (sum_list (intervals (snd (detectBpm bassEnergy now st)))
                          / real (length (intervals (snd (detectBpm bassEnergy now st)))))\<bar>
            \<le> 1 / 2 + 1 / 2 ^ 38) \<and>
         intervalsOk (snd (detectBpm bassEnergy now st))"
proof -
  have ok: "intervalsOk (snd (detectBpm bassEnergy now st))"
    by (rule intervalsOk_detectBpm [OF assms])
  have out: "fst (detectBpm bassEnergy now st) =
           (if length (intervals (snd (detectBpm bassEnergy now st))) < 4 then None
            else Some (mathRound
                   (fl (60000 / avg (intervals (snd (detectBpm bassEnergy now st)))))))"
    by (simp add: detectBpm_def Let_def)
  show ?thesis
    using ok out bpm_err [of "intervals (snd (detectBpm bassEnergy now st))"]
    by (simp add: intervalsOk_def)
qed

lemma fl_round_numbers:
  "fl 500 = 500" "fl 1000 = 1000" "fl 1500 = 1500" "fl 2000 = 2000" "fl 120 = 120"
proof -
  show "fl 500 = 500"
    by (rule fl_exact [where n = 8 and z = "500 * 2 ^ 44"]) simp_all
  show "fl 1000 = 1000"
    by (rule fl_exact [where n = 9 and z = "1000 * 2 ^ 43"]) simp_all
  show "fl 1500 = 1500"
    by (rule fl_exact [where n = 10 and z = "1500 * 2 ^ 42"]) simp_all
  show "fl 2000 = 2000"
    by (rule fl_exact [where n = 10 and z = "2000 * 2 ^ 42"]) simp_all
  show "fl 120 = 120"
    by (rule fl_exact [where n = 6 and z = "120 * 2 ^ 46"]) simp_all
qed

theorem bpm_output_double_witness:
  "intervalsOk \<lparr>lastBeatTime = 2000, intervals = [500, 500, 500], threshold = 80,
      minThreshold = 80\<rparr> \<and>
   fst (detectBpm 200 2500 \<lparr>lastBeatTime = 2000, intervals = [500, 500, 500],
      threshold = 80, minThreshold = 80\<rparr>) = Some 120 \<and>
   fst (detectBpm 200 2100 \<lparr>lastBeatTime = 2000, intervals = [500, 500, 500],
      threshold = 80, minThreshold = 80\<rparr>) = None"
proof -
  have ok: "intervalsOk \<lparr>lastBeatTime = 2000, intervals = [500, 500, 500], threshold = 80,
      minThreshold = 80\<rparr>"
    by (simp add: intervalsOk_def)
  have a: "intervals (snd (detectBpm 200 2500 \<lparr>lastBeatTime = 2000,
      intervals = [500, 500, 500], threshold = 80, minThreshold = 80\<rparr>)) = [500, 500, 500, 500]"
    by (simp add: detectBpm_def Let_def decayThreshold_def pushInterval_def fl_round_numbers)
  have b: "intervals (snd (detectBpm 200 2100 \<lparr>lastBeatTime = 2000,
      intervals = [500, 500, 500], threshold = 80, minThreshold = 80\<rparr>)) = [500, 500, 500]"
    by (simp add: detectBpm_def Let_def decayThreshold_def pushInterval_def)
  have v: "mathRound (fl (60000 / avg [500, 500, 500, 500])) = 120"
    by (simp add: avg_def fl_round_numbers mathRound_def)
  show ?thesis
    using ok bpm_output_double [OF ok, of 200 2500] bpm_output_double [OF ok, of 200 2100]
    unfolding a b v by simp
qed



section \<open>Sequencer: transport\<close>

text \<open>
  C9: \<open>stop()\<close> twice in a row never errors, and the second call leaves
  \<open>current16thNote\<close> as the first left it. \<open>stop\<close> is a total function with no
  failing branch (\<open>clearTimeout\<close> on a handle that is no longer pending does nothing);
  the second call changes nothing at all, and neither call touches \<open>current16thNote\<close>.
\<close>

theorem stop_twice:
  "stop (stop x) = stop x \<and>
   current16thNote (snd (stop (stop x))) = current16thNote (snd (stop x)) \<and>
   current16thNote (snd (stop x)) = current16thNote (snd x)"
  by (cases "timerID (snd x)") (simp_all add: stop_def Let_def clearTimeout_def)

text \<open>
  C10: \<open>play()\<close> while \<open>isPlaying\<close> is true returns at once and leaves the whole
  state (sequencer and runtime) unchanged; from the idle state it is the scheduler run
  on the state with \<open>current16thNote\<close> reset to 0 and \<open>nextNoteTime\<close> reset to
  \<open>currentTime + 0.05\<close>.
\<close>

theorem play_while_playing:
  "(isPlaying (snd x) \<longrightarrow> play x = Some x) \<and>
   (\<not> isPlaying (snd x) \<longrightarrow>
      play x = scheduler (resume (fst x),
                 (snd x)\<lparr>isPlaying := True, current16thNote := 0,
                          nextNoteTime := currentTime (fst x) + 0.05\<rparr>))"
  by (simp add: play_def)

theorem play_while_playing_witness:
  "isPlaying (snd (quietHost, fieldDefaults\<lparr>isPlaying := True, current16thNote := 7\<rparr>)) \<and>
   play (quietHost, fieldDefaults\<lparr>isPlaying := True, current16thNote := 7\<rparr>)
     = Some (quietHost, fieldDefaults\<lparr>isPlaying := True, current16thNote := 7\<rparr>) \<and>
   \<not> isPlaying (snd (quietHost, fieldDefaults)) \<and>
   play (quietHost, fieldDefaults) =
     scheduler (resume quietHost,
       fieldDefaults\<lparr>isPlaying := True, current16thNote := 0,
                      nextNoteTime := currentTime quietHost + 0.05\<rparr>)"
  using play_while_playing [of "(quietHost, fieldDefaults\<lparr>isPlaying := True, current16thNote := 7\<rparr>)"]
    play_while_playing [of "(quietHost, fieldDefaults)"]
  by (simp add: fieldDefaults_def)

text \<open>The loop of the scheduler ends whenever the tempo is positive, so \<open>play\<close> returns.\<close>

lemma currentTime_random [simp]: "currentTime (snd (random h)) = currentTime h"
  by (simp add: random_def)

lemma currentTime_fire [simp]: "currentTime (fire v h) = currentTime h"
  by (simp add: fire_def)

lemma currentTime_scheduleNote [simp]: "currentTime (scheduleNote k t s h) = currentTime h"
  by (simp add: scheduleNote_def schedulePerc_def scheduleBass_def scheduleHats_def
      scheduleKick_def Let_def split_beta)

lemma tick_fields [simp]:
  "tempo (snd (tick x)) = tempo (snd x)"
  "style (snd (tick x)) = style (snd x)"
  "isPlaying (snd (tick x)) = isPlaying (snd x)"
  "scheduleAheadTime (snd (tick x)) = scheduleAheadTime (snd x)"
  "bassPattern (snd (tick x)) = bassPattern (snd x)"
  "currentTime (fst (tick x)) = currentTime (fst x)"
  "nextNoteTime (snd (tick x)) = nextNoteTime (snd x) + 0.25 * (60 / real_of_int (tempo (snd x)))"
  by (cases x; simp add: nextNote_def Let_def)+

lemma schedLoop_terminates_aux:
  assumes "0 < tempo (snd x)"
    and "currentTime (fst x) + scheduleAheadTime (snd x) - nextNoteTime (snd x)
           \<le> real n * (0.25 * (60 / real_of_int (tempo (snd x))))"
  shows "\<exists>k. schedLoop x = Some ((tick ^^ k) x)"
  using assms
proof (induction n arbitrary: x)
  case 0
  then have "\<not> nextNoteTime (snd x) < currentTime (fst x) + scheduleAheadTime (snd x)"
    by simp
  then have "schedLoop x = Some ((tick ^^ 0) x)"
    by (subst schedLoop.simps) simp
  then show ?case by blast
next
  case (Suc n)
  show ?case
  proof (cases "nextNoteTime (snd x) < currentTime (fst x) + scheduleAheadTime (snd x)")
    case False
    then have "schedLoop x = Some ((tick ^^ 0) x)"
      by (subst schedLoop.simps) simp
    then show ?thesis by blast
  next
    case True
    have "0 < tempo (snd (tick x))"
      using Suc.prems by simp
    moreover have "currentTime (fst (tick x)) + scheduleAheadTime (snd (tick x))
        - nextNoteTime (snd (tick x))
        \<le> real n * (0.25 * (60 / real_of_int (tempo (snd (tick x)))))"
    proof -
      define d where "d = 0.25 * (60 / real_of_int (tempo (snd x)))"
      have p: "currentTime (fst x) + scheduleAheadTime (snd x) - nextNoteTime (snd x)
          \<le> real (Suc n) * d"
        using Suc.prems(2) unfolding d_def .
      have q: "nextNoteTime (snd (tick x)) = nextNoteTime (snd x) + d"
        unfolding d_def by (rule tick_fields)
      have "currentTime (fst x) + scheduleAheadTime (snd x) - (nextNoteTime (snd x) + d)
          \<le> real n * d"
        using p by (simp add: algebra_simps)
      then show ?thesis
        unfolding q tick_fields d_def .
    qed
    ultimately obtain k where "schedLoop (tick x) = Some ((tick ^^ k) (tick x))"
      using Suc.IH by blast
    then have "schedLoop x = Some ((tick ^^ Suc k) x)"
      using True by (subst schedLoop.simps) (simp add: funpow_swap1)
    then show ?thesis by blast
  qed
qed

lemma schedLoop_terminates:
  assumes "0 < tempo (snd x)"
  shows "\<exists>k. schedLoop x = Some ((tick ^^ k) x)"
proof -
  define d where "d = 0.25 * (60 / real_of_int (tempo (snd x)))"
  have d: "0 < d" using assms by (simp add: d_def)
  define g where "g = currentTime (fst x) + scheduleAheadTime (snd x) - nextNoteTime (snd x)"
  obtain n where "g / d \<le> real n"
    using real_arch_simple by blast
  then have "g \<le> real n * d"
    using d by (simp add: field_simps)
  then show ?thesis
    using schedLoop_terminates_aux [OF assms, of n] by (simp add: g_def d_def)
qed

lemma play_returns:
  assumes "0 < tempo (snd x)"
  shows "\<exists>r. play x = Some r"
proof (cases "isPlaying (snd x)")
  case True
  then show ?thesis by (simp add: play_def)
next
  case False
  let ?y = "(resume (fst x), (snd x)\<lparr>isPlaying := True, current16thNote := 0,
                          nextNoteTime := currentTime (fst x) + 0.05\<rparr>)"
  have "0 < tempo (snd ?y)" using assms by simp
  from schedLoop_terminates [OF this] obtain k where "schedLoop ?y = Some ((tick ^^ k) ?y)"
    by blast
  then show ?thesis using False by (simp add: play_def scheduler_def)
qed

section \<open>Sequencer: voices of a step\<close>

lemma grows_refl [simp]: "grows h h"
  by (simp add: grows_def)

lemma grows_trans: "grows h h1 \<Longrightarrow> grows h1 h2 \<Longrightarrow> grows h h2"
  by (auto simp: grows_def)

lemma grows_random [simp]: "grows h (snd (random h))"
  by (simp add: grows_def random_def)

lemma grows_fire: "\<not> isKick v \<Longrightarrow> grows h (fire v h)"
  by (simp add: grows_def fire_def)

lemma grows_fire_random: "\<not> isKick v \<Longrightarrow> grows h (fire v (snd (random h)))"
  by (rule grows_trans [OF grows_random grows_fire])

lemma grows_hats: "grows h (scheduleHats b t s h)"
proof (cases "style s = ''hard''")
  case True
  define h1 where "h1 = (if b mod 4 = 2 then fire (HiHat t True 0) h else h)"
  define h2 where "h2 = (if b mod 2 \<noteq> 0 then fire (HiHat t False 0) h1 else h1)"
  have a: "grows h h1" by (simp add: h1_def grows_fire)
  have b: "grows h1 h2" by (simp add: h2_def grows_fire)
  have c: "grows h2 (if b mod 4 = 0
               then (let (r, h3) = random h2
                     in if r > 0.5 then fire (HiHat t True 0.1) h3 else h3)
               else h2)"
    by (simp add: split_beta grows_fire_random)
  have "scheduleHats b t s h = (if b mod 4 = 0
               then (let (r, h3) = random h2
                     in if r > 0.5 then fire (HiHat t True 0.1) h3 else h3)
               else h2)"
    using True by (simp add: scheduleHats_def h1_def h2_def Let_def)
  then show ?thesis
    using grows_trans [OF grows_trans [OF a b] c] by simp
next
  case False
  then show ?thesis
    by (simp add: scheduleHats_def split_beta grows_fire grows_fire_random)
qed

lemma grows_bass: "grows h (scheduleBass k t s h)"
  by (simp add: scheduleBass_def grows_fire)

lemma grows_perc: "grows h (schedulePerc t s h)"
  by (simp add: schedulePerc_def split_beta grows_fire_random)

lemma kick_voices:
  "voices (scheduleKick b t s h) =
     voices h @ (if b mod 4 = 0 then [if style s = ''hard'' then RumbleKick t else Kick t] else [])"
  by (simp add: scheduleKick_def fire_def)

lemma kicks_scheduleNote:
  "filter isKick (newVoices h (scheduleNote k t s h)) =
     (if k mod 16 mod 4 = 0 then [if style s = ''hard'' then RumbleKick t else Kick t] else [])"
proof -
  define h1 where "h1 = scheduleKick (k mod 16) t s h"
  have "grows h1 (schedulePerc t s (scheduleBass k t s (scheduleHats (k mod 16) t s h1)))"
    by (rule grows_trans [OF grows_trans [OF grows_hats grows_bass] grows_perc])
  then obtain vs where vs: "voices (scheduleNote k t s h) = voices h1 @ vs" "filter isKick vs = []"
    by (auto simp: grows_def scheduleNote_def h1_def Let_def)
  show ?thesis
    unfolding newVoices_def vs h1_def kick_voices using vs(2) by simp
qed

lemma voices_scheduleNote: "\<exists>vs. voices (scheduleNote k t s h) = voices h @ vs"
proof -
  define h1 where "h1 = scheduleKick (k mod 16) t s h"
  have "grows h1 (schedulePerc t s (scheduleBass k t s (scheduleHats (k mod 16) t s h1)))"
    by (rule grows_trans [OF grows_trans [OF grows_hats grows_bass] grows_perc])
  then obtain vs where vs: "voices (scheduleNote k t s h) = voices h1 @ vs"
    by (auto simp: grows_def scheduleNote_def h1_def Let_def)
  show ?thesis
    unfolding vs h1_def kick_voices by simp
qed

lemma style_funpow [simp]: "style (snd ((tick ^^ k) x)) = style (snd x)"
  by (induction k) simp_all

lemma kicksAt_eq:
  "kicksAt k x =
     (if current16thNote (snd ((tick ^^ k) x)) mod 16 mod 4 = 0
      then [if style (snd x) = ''hard'' then RumbleKick (nextNoteTime (snd ((tick ^^ k) x)))
            else Kick (nextNoteTime (snd ((tick ^^ k) x)))]
      else [])"
proof -
  obtain h s where hs: "(tick ^^ k) x = (h, s)" by (cases "(tick ^^ k) x")
  have "style s = style (snd x)" using style_funpow [of k x] by (simp add: hs)
  then show ?thesis
    by (simp add: kicksAt_def hs kicks_scheduleNote)
qed

lemma voices_tick: "\<exists>vs. voices (fst (tick y)) = voices (fst y) @ vs"
  by (cases y) (simp add: voices_scheduleNote)

lemma voices_funpow: "\<exists>vs. voices (fst ((tick ^^ n) x)) = voices (fst x) @ vs"
proof (induction n)
  case 0
  then show ?case by simp
next
  case (Suc n)
  then obtain vs where "voices (fst ((tick ^^ n) x)) = voices (fst x) @ vs" by blast
  moreover obtain ws where "voices (fst (tick ((tick ^^ n) x))) = voices (fst ((tick ^^ n) x)) @ ws"
    using voices_tick by blast
  ultimately show ?case by simp
qed

lemma kicks_funpow:
  "filter isKick (newVoices (fst x) (fst ((tick ^^ n) x))) = concat (map (\<lambda>k. kicksAt k x) [0..<n])"
proof (induction n)
  case 0
  then show ?case by (simp add: newVoices_def)
next
  case (Suc n)
  obtain vs where vs: "voices (fst ((tick ^^ n) x)) = voices (fst x) @ vs"
    using voices_funpow by blast
  obtain ws where ws: "voices (fst (tick ((tick ^^ n) x))) = voices (fst ((tick ^^ n) x)) @ ws"
    using voices_tick by blast
  have "filter isKick (newVoices (fst x) (fst ((tick ^^ Suc n) x)))
      = filter isKick (newVoices (fst x) (fst ((tick ^^ n) x))) @ kicksAt n x"
    by (simp add: newVoices_def kicksAt_def ws vs)
  then show ?case
    using Suc by simp
qed

lemma note_funpow:
  "current16thNote (snd x) + k < 64 \<Longrightarrow>
   current16thNote (snd ((tick ^^ k) x)) = current16thNote (snd x) + k"
proof (induction k)
  case 0
  then show ?case by simp
next
  case (Suc k)
  then have "current16thNote (snd ((tick ^^ k) x)) = current16thNote (snd x) + k"
    by simp
  moreover have "current16thNote (snd (tick y)) =
      (if current16thNote (snd y) + 1 = 64 then 0 else current16thNote (snd y) + 1)" for y
    by (cases y) (simp add: nextNote_def Let_def)
  ultimately show ?case
    using Suc.prems by simp
qed

lemma upt_16: "[0..<16] = [0, 1, 2, 3, 4, 5, 6, 7, 8, 9, 10, 11, 12, 13, 14, 15::nat]"
  by (simp add: upt_rec)

lemma quarter_steps: "b < 16 \<Longrightarrow> (b mod 4 = 0) = (b \<in> {0, 4, 8, 12::nat})"
  by (simp; presburger)

text \<open>
  C8: in Hard style a step fires a kick (the rumble kick) exactly when its index
  within the bar is 0, 4, 8 or 12, whatever \<open>Math.random()\<close> returns; stepping through
  one bar from a bar boundary, the \<open>k\<close>-th step has index \<open>k\<close> within the bar and
  the kicks fired are exactly four, those of the steps 0, 4, 8 and 12, each at the
  \<open>nextNoteTime\<close> of its step.
\<close>

theorem hard_kicks_per_bar:
  assumes "style (snd x) = ''hard''"
  shows "(\<forall>k. kicksAt k x =
            (if current16thNote (snd ((tick ^^ k) x)) mod 16 \<in> {0, 4, 8, 12}
             then [RumbleKick (nextNoteTime (snd ((tick ^^ k) x)))] else [])) \<and>
         (current16thNote (snd x) mod 16 = 0 \<and> current16thNote (snd x) < 64 \<longrightarrow>
            (\<forall>k<16. current16thNote (snd ((tick ^^ k) x)) mod 16 = k) \<and>
            filter isKick (newVoices (fst x) (fst ((tick ^^ 16) x))) =
              [RumbleKick (nextNoteTime (snd x)),
               RumbleKick (nextNoteTime (snd ((tick ^^ 4) x))),
               RumbleKick (nextNoteTime (snd ((tick ^^ 8) x))),
               RumbleKick (nextNoteTime (snd ((tick ^^ 12) x)))])"
proof (intro conjI allI impI)
  fix k
  have lt: "current16thNote (snd ((tick ^^ k) x)) mod 16 < 16"
    by simp
  have e: "kicksAt k x =
      (if current16thNote (snd ((tick ^^ k) x)) mod 16 mod 4 = 0
       then [RumbleKick (nextNoteTime (snd ((tick ^^ k) x)))] else [])"
    unfolding kicksAt_eq assms by (simp only: simp_thms if_True)
  show "kicksAt k x =
            (if current16thNote (snd ((tick ^^ k) x)) mod 16 \<in> {0, 4, 8, 12}
             then [RumbleKick (nextNoteTime (snd ((tick ^^ k) x)))] else [])"
    unfolding e quarter_steps [OF lt] by (rule refl)
next
  fix k :: nat
  assume a: "current16thNote (snd x) mod 16 = 0 \<and> current16thNote (snd x) < 64" and k: "k < 16"
  from a have "current16thNote (snd x) \<le> 48" by presburger
  then have "current16thNote (snd ((tick ^^ k) x)) = current16thNote (snd x) + k"
    using k by (intro note_funpow) simp
  then show "current16thNote (snd ((tick ^^ k) x)) mod 16 = k"
    using a k by (simp add: mod_add_left_eq [symmetric])
next
  assume a: "current16thNote (snd x) mod 16 = 0 \<and> current16thNote (snd x) < 64"
  from a have le: "current16thNote (snd x) \<le> 48" by presburger
  have step: "kicksAt k x = (if k mod 4 = 0 then [RumbleKick (nextNoteTime (snd ((tick ^^ k) x)))] else [])"
    if "k < 16" for k
  proof -
    have "current16thNote (snd ((tick ^^ k) x)) = current16thNote (snd x) + k"
      using that le by (intro note_funpow) simp
    then have "current16thNote (snd ((tick ^^ k) x)) mod 16 = k"
      using a that by (simp add: mod_add_left_eq [symmetric])
    then show ?thesis
      using assms by (simp add: kicksAt_eq)
  qed
  have "concat (map (\<lambda>k. kicksAt k x) [0..<16]) =
        concat (map (\<lambda>k. if k mod 4 = 0 then [RumbleKick (nextNoteTime (snd ((tick ^^ k) x)))] else []) [0..<16])"
    by (rule arg_cong [where f = concat], rule map_cong) (simp_all add: step)
  also have "\<dots> = [RumbleKick (nextNoteTime (snd ((tick ^^ 0) x))),
               RumbleKick (nextNoteTime (snd ((tick ^^ 4) x))),
               RumbleKick (nextNoteTime (snd ((tick ^^ 8) x))),
               RumbleKick (nextNoteTime (snd ((tick ^^ 12) x)))]"
    unfolding upt_16 by simp
  finally show "filter isKick (newVoices (fst x) (fst ((tick ^^ 16) x))) =
              [RumbleKick (nextNoteTime (snd x)),
               RumbleKick (nextNoteTime (snd ((tick ^^ 4) x))),
               RumbleKick (nextNoteTime (snd ((tick ^^ 8) x))),
               RumbleKick (nextNoteTime (snd ((tick ^^ 12) x)))]"
    by (simp add: kicks_funpow)
qed

theorem hard_kicks_per_bar_witness:
  "style (fieldDefaults\<lparr>style := ''hard''\<rparr>) = ''hard'' \<and>
   current16thNote (fieldDefaults\<lparr>style := ''hard''\<rparr>) mod 16 = 0 \<and>
   current16thNote (fieldDefaults\<lparr>style := ''hard''\<rparr>) < 64 \<and>
   kicksAt 0 (quietHost, fieldDefaults\<lparr>style := ''hard''\<rparr>) = [RumbleKick 0] \<and>
   length (filter isKick (newVoices quietHost
     (fst ((tick ^^ 16) (quietHost, fieldDefaults\<lparr>style := ''hard''\<rparr>))))) = 4"
proof -
  have s: "style (snd (quietHost, fieldDefaults\<lparr>style := ''hard''\<rparr>)) = ''hard''"
    by simp
  have c: "current16thNote (fieldDefaults\<lparr>style := ''hard''\<rparr>) = 0"
    "nextNoteTime (fieldDefaults\<lparr>style := ''hard''\<rparr>) = 0"
    by (simp_all add: fieldDefaults_def)
  from hard_kicks_per_bar [OF s] have
    k: "kicksAt 0 (quietHost, fieldDefaults\<lparr>style := ''hard''\<rparr>) =
        (if current16thNote (snd ((tick ^^ 0) (quietHost, fieldDefaults\<lparr>style := ''hard''\<rparr>)))
              mod 16 \<in> {0, 4, 8, 12}
         then [RumbleKick (nextNoteTime
                 (snd ((tick ^^ 0) (quietHost, fieldDefaults\<lparr>style := ''hard''\<rparr>))))]
         else [])"
    and b: "current16thNote (snd (quietHost, fieldDefaults\<lparr>style := ''hard''\<rparr>)) mod 16 = 0 \<and>
      current16thNote (snd (quietHost, fieldDefaults\<lparr>style := ''hard''\<rparr>)) < 64 \<longrightarrow>
      length (filter isKick (newVoices (fst (quietHost, fieldDefaults\<lparr>style := ''hard''\<rparr>))
        (fst ((tick ^^ 16) (quietHost, fieldDefaults\<lparr>style := ''hard''\<rparr>))))) = 4"
    by simp_all
  show ?thesis
    using k b c by simp
qed

section \<open>Sequencer: regenerate\<close>

lemma random_range: "0 \<le> fst (random h) \<and> fst (random h) < 1"
  using Rep_unit_real [of "rand h (drawn h)"] by (simp add: random_def)

lemma random_quietHost: "fst (random quietHost) = 1 / 2"
  by (simp add: random_def quietHost_def Abs_unit_real_inverse)

lemma regenerate_not_hard:
  assumes "v \<noteq> ''hard''" and "v \<noteq> []"
  shows "regenerate (Some v) h s =
           (fst (regenerate (Some ''minimal'') h s),
            (snd (regenerate (Some ''minimal'') h s))\<lparr>style := v\<rparr>)"
  using assms by (simp add: regenerate_def Let_def split_beta generateMinimalPattern_def)

lemma regenerate_minimal_fields:
  "tempo (snd (regenerate (Some ''minimal'') h s)) = 126 + \<lfloor>fst (random h) * 4\<rfloor>"
  "delayGain (snd (regenerate (Some ''minimal'') h s)) = 0.1"
  by (simp_all add: regenerate_def Let_def split_beta generateMinimalPattern_def)

lemma minimal_tempo:
  "0 \<le> (r::real) \<Longrightarrow> r < 1 \<Longrightarrow> 126 \<le> 126 + \<lfloor>r * 4\<rfloor> \<and> 126 + \<lfloor>r * 4\<rfloor> < (130::int)"
proof -
  assume "0 \<le> r" "r < (1::real)"
  then have "0 \<le> \<lfloor>r * 4\<rfloor>" "\<lfloor>r * 4\<rfloor> < 4"
    by (simp_all add: floor_less_iff)
  then show ?thesis by simp
qed

text \<open>
  C5, as stated: \<open>regenerate\<close> rejects a style outside \<open>{minimal, hard}\<close> instead of
  falling back to a default. Called with \<open>'acid'\<close> it returns normally with exactly
  what \<open>'minimal'\<close> gives (tempo 128 here, the same pattern, the same draws), only the
  \<open>style\<close> field holding \<open>'acid'\<close>.
\<close>

theorem unknown_style_falls_back:
  "regenerate (Some ''acid'') quietHost fieldDefaults =
     (fst (regenerate (Some ''minimal'') quietHost fieldDefaults),
      (snd (regenerate (Some ''minimal'') quietHost fieldDefaults))\<lparr>style := ''acid''\<rparr>) \<and>
   tempo (snd (regenerate (Some ''acid'') quietHost fieldDefaults)) = 128 \<and>
   tempo (snd (regenerate (Some ''minimal'') quietHost fieldDefaults)) = 128 \<and>
   bassPattern (snd (regenerate (Some ''acid'') quietHost fieldDefaults)) =
     bassPattern (snd (regenerate (Some ''minimal'') quietHost fieldDefaults))"
proof -
  have v: "regenerate (Some ''acid'') quietHost fieldDefaults =
     (fst (regenerate (Some ''minimal'') quietHost fieldDefaults),
      (snd (regenerate (Some ''minimal'') quietHost fieldDefaults))\<lparr>style := ''acid''\<rparr>)"
    by (rule regenerate_not_hard) simp_all
  have t: "tempo (snd (regenerate (Some ''minimal'') quietHost fieldDefaults)) = 128"
    by (simp add: regenerate_minimal_fields random_quietHost)
  show ?thesis
    unfolding v using t by simp
qed

text \<open>
  C5, amended: \<open>regenerate\<close> has no failing path (its parameter has the type
  \<open>'minimal' | 'hard'\<close>, which is all that excludes other styles): every non-empty
  style other than \<open>'hard'\<close> is stored in \<open>style\<close> and takes the \<open>else\<close> branch, which
  gives the Minimal tempo (126 to 129), echo gain 0.1 and the Minimal pattern.
\<close>

theorem regenerate_unknown_style:
  assumes "v \<noteq> ''hard''" and "v \<noteq> []"
  shows "regenerate (Some v) h s =
           (fst (regenerate (Some ''minimal'') h s),
            (snd (regenerate (Some ''minimal'') h s))\<lparr>style := v\<rparr>) \<and>
         style (snd (regenerate (Some v) h s)) = v \<and>
         126 \<le> tempo (snd (regenerate (Some v) h s)) \<and>
         tempo (snd (regenerate (Some v) h s)) < 130 \<and>
         delayGain (snd (regenerate (Some v) h s)) = 0.1"
proof -
  have t: "126 \<le> 126 + \<lfloor>fst (random h) * 4\<rfloor> \<and> 126 + \<lfloor>fst (random h) * 4\<rfloor> < (130::int)"
    using random_range [of h] by (intro minimal_tempo) simp_all
  show ?thesis
    unfolding regenerate_not_hard [OF assms] using t
    by (simp add: regenerate_minimal_fields)
qed

theorem regenerate_unknown_style_witness:
  "''acid'' \<noteq> ''hard'' \<and> ''acid'' \<noteq> [] \<and>
   style (snd (regenerate (Some ''acid'') quietHost fieldDefaults)) = ''acid'' \<and>
   tempo (snd (regenerate (Some ''acid'') quietHost fieldDefaults)) < 130"
proof -
  have a: "''acid'' \<noteq> ''hard''" and b: "''acid'' \<noteq> []"
    by simp_all
  from regenerate_unknown_style [OF a b, of quietHost fieldDefaults] show ?thesis
    using a b by blast
qed

end
